theory Spec2Isabelle
  imports Main
begin

section \<open>Errors and the standard library's number conversions\<close>

text \<open>
  The Go code reports failure through \<open>error\<close> results and through run-time panics.
  Both are values here: \<open>EOF\<close> is \<open>io.EOF\<close>, \<open>NumError\<close> is the
  \<open>*strconv.NumError\<close> of a failed conversion, \<open>Panic\<close> is a run-time panic
  (a slice made with a negative length, an index out of range).
\<close>

datatype error = EOF | NumError | Panic

text \<open>
  Go's \<open>int\<close> is 64 bits wide and wraps around silently; \<open>int64\<close> is the value an
  arithmetic result has after the wrap-around.
\<close>

definition int64 :: "int \<Rightarrow> int" where
  "int64 x = (x + 2 ^ 63) mod 2 ^ 64 - 2 ^ 63"

definition isDigit :: "char \<Rightarrow> bool" where
  "isDigit c = (48 \<le> (of_char c :: nat) \<and> (of_char c :: nat) \<le> 57)"

definition digitVal :: "char \<Rightarrow> nat" where
  "digitVal c = of_char c - 48"

definition parseDigits :: "string \<Rightarrow> nat" where
  "parseDigits ds = foldl (\<lambda>n c. n * 10 + digitVal c) 0 ds"

text \<open>
  \<open>strconv.ParseInt(s, 10, 64)\<close>, which is also what \<open>strconv.Atoi\<close> computes on a
  64-bit platform: an optional sign, then one or more decimal digits and nothing else
  (no underscores in base 10), and the value must fit a signed 64-bit integer. Every
  failure is a \<open>*strconv.NumError\<close>.
\<close>

definition ParseInt :: "string \<Rightarrow> error + int" where
  "ParseInt s =
     (case s of
        [] \<Rightarrow> Inl NumError
      | c # cs \<Rightarrow>
          (let neg = (c = CHR ''-'');
               ds = (if c = CHR ''+'' \<or> c = CHR ''-'' then cs else s)
           in if ds = [] \<or> \<not> list_all isDigit ds then Inl NumError
              else let un = parseDigits ds
                   in if \<not> neg \<and> 2 ^ 63 \<le> un then Inl NumError
                      else if neg \<and> 2 ^ 63 < un then Inl NumError
                      else Inr (if neg then - int un else int un)))"

definition Atoi :: "string \<Rightarrow> error + int" where
  "Atoi s = ParseInt s"

text \<open>\<open>strconv.Itoa\<close>: the decimal digits, most significant first, after a minus sign
  for a negative number.\<close>

fun formatBits :: "nat \<Rightarrow> string" where
  "formatBits n =
     (if n < 10 then [char_of (48 + n)]
      else formatBits (n div 10) @ [char_of (48 + n mod 10)])"

declare formatBits.simps [simp del]

definition Itoa :: "int \<Rightarrow> string" where
  "Itoa i = (if i < 0 then CHR ''-'' # formatBits (nat (- i)) else formatBits (nat i))"

text \<open>
  \<open>strings.ToUpper\<close> on a string of ASCII bytes: the letters a to z become A to Z.
  A string with a byte above 127 Go maps rune by rune through the Unicode tables, which
  are not modelled: the model leaves such bytes as they are, and differs from Go there.
  Every string that a theorem below passes to \<open>ToUpper\<close> explicitly is ASCII.
\<close>

definition upperByte :: "char \<Rightarrow> char" where
  "upperByte c =
     (if 97 \<le> (of_char c :: nat) \<and> (of_char c :: nat) \<le> 122
      then char_of ((of_char c :: nat) - 32) else c)"

definition ToUpper :: "string \<Rightarrow> string" where
  "ToUpper s = map upperByte s"

section \<open>Wire values and their serialization (resp.go)\<close>

definition STRING :: char where "STRING = CHR ''+''"
definition ERROR :: char where "ERROR = CHR ''-''"
definition INTEGER :: char where "INTEGER = CHR '':''"
definition BULK :: char where "BULK = CHR ''$''"
definition ARRAY :: char where "ARRAY = CHR ''*''"

text \<open>
  The struct \<open>Value\<close>: a kind tag held as a string (the field \<open>typ\<close>, written
  \<open>typ'\<close> here) and one field for each kind of payload. A Go string is a sequence of
  bytes, as \<open>string\<close> is here. The nil slice and the empty slice are both \<open>[]\<close>.
\<close>

datatype Value =
  Value (typ': string) (str: string) (num: int) (bulk: string) (array: "Value list")

text \<open>\<open>Value{}\<close>, the zero value of the struct.\<close>

definition zeroValue :: Value where
  "zeroValue = Value [] [] 0 [] []"

definition CRLF :: string where
  "CRLF = [CHR 0x0D, CHR 0x0A]"

definition marshalString :: "Value \<Rightarrow> string" where
  "marshalString v = [STRING] @ str v @ CRLF"

definition marshalBulk :: "Value \<Rightarrow> string" where
  "marshalBulk v = [BULK] @ Itoa (int (length (bulk v))) @ CRLF @ bulk v @ CRLF"

definition marshallError :: "Value \<Rightarrow> string" where
  "marshallError v = [ERROR] @ str v @ CRLF"

definition marshallNull :: "Value \<Rightarrow> string" where
  "marshallNull v = ''$-1'' @ CRLF"

text \<open>
  \<open>Marshal\<close> switches on the kind tag; \<open>marshalArray\<close>, which calls \<open>Marshal\<close> on
  each element in order, is the first case.
\<close>

fun Marshal :: "Value \<Rightarrow> string" where
  "Marshal (Value t s n b arr) =
     (if t = ''array'' then
        [ARRAY] @ Itoa (int (length arr)) @ CRLF @ concat (map Marshal arr)
      else if t = ''bulk'' then marshalBulk (Value t s n b arr)
      else if t = ''string'' then marshalString (Value t s n b arr)
      else if t = ''null'' then marshallNull (Value t s n b arr)
      else if t = ''error'' then marshallError (Value t s n b arr)
      else [])"

definition marshalArray :: "Value \<Rightarrow> string" where
  "marshalArray v =
     [ARRAY] @ Itoa (int (length (array v))) @ CRLF @ concat (map Marshal (array v))"

section \<open>The command handlers (handlers.go)\<close>

text \<open>The two global maps \<open>SETs\<close> and \<open>HSETs\<close>; every handler takes the state and
  returns its reply with the state it leaves.\<close>

record store =
  SETs :: "string \<rightharpoonup> string"
  HSETs :: "string \<rightharpoonup> (string \<rightharpoonup> string)"

definition emptyStore :: store where
  "emptyStore = \<lparr>SETs = Map.empty, HSETs = Map.empty\<rparr>"

type_synonym handler = "Value list \<Rightarrow> store \<Rightarrow> Value \<times> store"

definition arityError :: "string \<Rightarrow> Value" where
  "arityError cmd =
     Value ''error'' (''ERR wrong number of arguments for '' @ [CHR 0x27] @ cmd @ [CHR 0x27]
       @ '' command'') 0 [] []"

definition handlePing :: handler where
  "handlePing args st =
     (if length args = 0 then (Value ''string'' ''PONG'' 0 [] [], st)
      else (Value ''string'' (bulk (args ! 0)) 0 [] [], st))"

definition handleSet :: handler where
  "handleSet args st =
     (if length args \<noteq> 2 then (arityError ''set'', st)
      else let key = bulk (args ! 0); value = bulk (args ! 1)
           in (Value ''string'' ''OK'' 0 [] [], st\<lparr>SETs := (SETs st)(key \<mapsto> value)\<rparr>))"

definition handleGet :: handler where
  "handleGet args st =
     (if length args \<noteq> 1 then (arityError ''get'', st)
      else let key = bulk (args ! 0)
           in case SETs st key of
                None \<Rightarrow> (Value ''null'' [] 0 [] [], st)
              | Some value \<Rightarrow> (Value ''bulk'' [] 0 value [], st))"

fun handleDel_loop :: "Value list \<Rightarrow> (string \<rightharpoonup> string) \<Rightarrow> int \<Rightarrow> (string \<rightharpoonup> string) \<times> int" where
  "handleDel_loop [] m deletedCount = (m, deletedCount)"
| "handleDel_loop (arg # args) m deletedCount =
     (let key = bulk arg
      in if m key \<noteq> None then handleDel_loop args (m(key := None)) (deletedCount + 1)
         else handleDel_loop args m deletedCount)"

definition handleDel :: handler where
  "handleDel args st =
     (if length args = 0 then (arityError ''del'', st)
      else let (m, deletedCount) = handleDel_loop args (SETs st) 0
           in (Value ''integer'' [] deletedCount [] [], st\<lparr>SETs := m\<rparr>))"

fun handleExists_loop :: "Value list \<Rightarrow> (string \<rightharpoonup> string) \<Rightarrow> int \<Rightarrow> int" where
  "handleExists_loop [] m existsCount = existsCount"
| "handleExists_loop (arg # args) m existsCount =
     (let key = bulk arg
      in if m key \<noteq> None then handleExists_loop args m (existsCount + 1)
         else handleExists_loop args m existsCount)"

definition handleExists :: handler where
  "handleExists args st =
     (if length args = 0 then (arityError ''exists'', st)
      else (Value ''integer'' [] (handleExists_loop args (SETs st) 0) [] [], st))"

text \<open>\<open>intValue++\<close> is an addition on a 64-bit \<open>int\<close>, so it wraps around.\<close>

definition handleIncr :: handler where
  "handleIncr args st =
     (if length args \<noteq> 1 then (arityError ''incr'', st)
      else let key = bulk (args ! 0)
           in case SETs st key of
                None \<Rightarrow> (Value ''integer'' [] 1 [] [], st\<lparr>SETs := (SETs st)(key \<mapsto> ''1'')\<rparr>)
              | Some value \<Rightarrow>
                  (case Atoi value of
                     Inl err \<Rightarrow> (Value ''error'' ''ERR value is not an integer'' 0 [] [], st)
                   | Inr intValue \<Rightarrow>
                       (let intValue' = int64 (intValue + 1)
                        in (Value ''integer'' [] intValue' [] [],
                            st\<lparr>SETs := (SETs st)(key \<mapsto> Itoa intValue')\<rparr>))))"

definition handleHSet :: handler where
  "handleHSet args st =
     (if length args \<noteq> 3 then (arityError ''hset'', st)
      else let hash = bulk (args ! 0); key = bulk (args ! 1); value = bulk (args ! 2);
               h = (case HSETs st hash of None \<Rightarrow> Map.empty | Some m \<Rightarrow> m)
           in (Value ''string'' ''OK'' 0 [] [],
               st\<lparr>HSETs := (HSETs st)(hash \<mapsto> h(key \<mapsto> value))\<rparr>))"

definition handleHGet :: handler where
  "handleHGet args st =
     (if length args \<noteq> 2 then (arityError ''hget'', st)
      else let hash = bulk (args ! 0); key = bulk (args ! 1)
           in case (case HSETs st hash of None \<Rightarrow> None | Some m \<Rightarrow> m key) of
                None \<Rightarrow> (Value ''null'' [] 0 [] [], st)
              | Some value \<Rightarrow> (Value ''bulk'' [] 0 value [], st))"

text \<open>
  \<open>handleHGetAll\<close> ranges over a Go map, whose iteration order the run time chooses.
  The order is the parameter \<open>ord\<close>: the keys of the hash in the order in which this
  call visits them.
\<close>

definition handleHGetAll :: "((string \<rightharpoonup> string) \<Rightarrow> string list) \<Rightarrow> handler" where
  "handleHGetAll ord args st =
     (if length args \<noteq> 1 then (arityError ''hgetall'', st)
      else let hash = bulk (args ! 0)
           in case HSETs st hash of
                None \<Rightarrow> (Value ''null'' [] 0 [] [], st)
              | Some value \<Rightarrow>
                  (Value ''array'' [] 0 []
                     (concat (map (\<lambda>k. case value k of
                                          None \<Rightarrow> []
                                        | Some v \<Rightarrow> [Value ''bulk'' [] 0 k [], Value ''bulk'' [] 0 v []])
                                  (ord value))), st))"

text \<open>The dispatch table \<open>Handlers\<close>.\<close>

definition Handlers :: "((string \<rightharpoonup> string) \<Rightarrow> string list) \<Rightarrow> string \<rightharpoonup> handler" where
  "Handlers ord =
     [''PING'' \<mapsto> handlePing, ''SET'' \<mapsto> handleSet, ''GET'' \<mapsto> handleGet,
      ''DEL'' \<mapsto> handleDel, ''EXISTS'' \<mapsto> handleExists, ''INCR'' \<mapsto> handleIncr,
      ''HSET'' \<mapsto> handleHSet, ''HGET'' \<mapsto> handleHGet, ''HGETALL'' \<mapsto> handleHGetAll ord]"

section \<open>The decoder (resp.go)\<close>

text \<open>
  The struct \<open>RESP\<close> holds a \<open>bufio.Reader\<close> over the connection or the file.
  Its state is the bytes already taken from the underlying reader and not yet consumed
  (\<open>buf\<close>) and the bytes the underlying reader still has (\<open>src\<close>). The underlying
  reader is a file or a byte buffer: a read on it returns as many bytes as are asked for
  while it has them, and \<open>io.EOF\<close> once it has none. \<open>bufio.NewReader\<close> gives a
  buffer of 4096 bytes.
\<close>

definition defaultBufSize :: nat where
  "defaultBufSize = 4096"

datatype RESP = RESP (buf: string) (src: string)

definition NewRESP :: "string \<Rightarrow> RESP" where
  "NewRESP rd = RESP [] rd"

definition remaining :: "RESP \<Rightarrow> nat" where
  "remaining r = length (buf r) + length (src r)"

text \<open>\<open>fill\<close> is called on an empty buffer: one read of the underlying reader into it.\<close>

definition fill :: "RESP \<Rightarrow> RESP" where
  "fill r = RESP (take defaultBufSize (src r)) (drop defaultBufSize (src r))"

definition ReadByte :: "RESP \<Rightarrow> (error + char) \<times> RESP" where
  "ReadByte r =
     (let r1 = (if buf r = [] then fill r else r)
      in case buf r1 of
           [] \<Rightarrow> (Inl EOF, r1)
         | c # cs \<Rightarrow> (Inr c, RESP cs (src r1)))"

text \<open>
  \<open>bufio.Reader.Read(p)\<close> with \<open>len(p) = n\<close>, as \<open>readBulk\<close> calls it: the bytes
  copied into \<open>p\<close> and the reader afterwards. It takes the bytes from at most one read
  of the underlying reader, so it may copy fewer than \<open>n\<close>: with bytes in the buffer
  it copies from the buffer only; on an empty buffer it reads the underlying reader
  directly when \<open>n\<close> is at least the buffer size, and fills the buffer once
  otherwise. \<open>readBulk\<close> drops the count and the error it returns.
\<close>

definition bufRead :: "nat \<Rightarrow> RESP \<Rightarrow> string \<times> RESP" where
  "bufRead n r =
     (if n = 0 then ([], r)
      else if buf r = [] then
        (if defaultBufSize \<le> n then (take n (src r), RESP [] (drop n (src r)))
         else let r1 = fill r in (take n (buf r1), RESP (drop n (buf r1)) (src r1)))
      else (take n (buf r), RESP (drop n (buf r)) (src r)))"

lemma fill_remaining: "buf r = [] \<Longrightarrow> remaining (fill r) = remaining r"
  by (simp add: remaining_def fill_def)

lemma ReadByte_remaining:
  "ReadByte r = (Inr c, r') \<Longrightarrow> remaining r' < remaining r"
proof -
  assume a: "ReadByte r = (Inr c, r')"
  let ?r1 = "if buf r = [] then fill r else r"
  have eq: "remaining ?r1 = remaining r" by (simp add: fill_remaining)
  from a obtain cs where "buf ?r1 = c # cs" "r' = RESP cs (src ?r1)"
    by (auto simp: ReadByte_def Let_def split: list.splits)
  then have "remaining ?r1 = Suc (remaining r')" by (simp add: remaining_def)
  with eq show ?thesis by simp
qed

lemma ReadByte_remaining_le: "remaining (snd (ReadByte r)) \<le> remaining r"
proof -
  let ?r1 = "if buf r = [] then fill r else r"
  have eq: "remaining ?r1 = remaining r" by (simp add: fill_remaining)
  have "remaining (snd (ReadByte r)) \<le> remaining ?r1"
    by (cases "buf ?r1") (simp_all add: ReadByte_def Let_def remaining_def)
  with eq show ?thesis by simp
qed

text \<open>\<open>readLine\<close>: bytes are appended to \<open>line\<close> until the byte before the last one
  is a carriage return; the last two bytes are cut off. \<open>n\<close> counts the bytes read.\<close>

function readLine_loop :: "string \<Rightarrow> nat \<Rightarrow> RESP \<Rightarrow> (error + string \<times> nat) \<times> RESP" where
  "readLine_loop line n r =
     (case ReadByte r of
        (Inl err, r') \<Rightarrow> (Inl err, r')
      | (Inr b, r') \<Rightarrow>
          (let n' = n + 1; line' = line @ [b]
           in if 2 \<le> length line' \<and> line' ! (length line' - 2) = CHR 0x0D
              then (Inr (take (length line' - 2) line', n'), r')
              else readLine_loop line' n' r'))"
  by pat_completeness auto
termination
  by (relation "measure (\<lambda>(line, n, r). remaining r)") (auto dest: ReadByte_remaining [OF sym])

declare readLine_loop.simps [simp del]

definition readLine :: "RESP \<Rightarrow> (error + string \<times> nat) \<times> RESP" where
  "readLine r = readLine_loop [] 0 r"

definition readInteger :: "RESP \<Rightarrow> (error + int \<times> nat) \<times> RESP" where
  "readInteger r =
     (case readLine r of
        (Inl err, r') \<Rightarrow> (Inl err, r')
      | (Inr (line, n), r') \<Rightarrow>
          (case ParseInt line of
             Inl err \<Rightarrow> (Inl err, r')
           | Inr i64 \<Rightarrow> (Inr (i64, n), r')))"

text \<open>
  \<open>readBulk\<close>: \<open>make([]byte, len)\<close> panics on a negative length and gives
  \<open>len\<close> zero bytes otherwise (the allocation is taken to succeed); the bytes that
  \<open>Read\<close> copies overwrite the front of them. The result of the final \<open>readLine\<close>
  is dropped, its effect on the reader is not.
\<close>

definition readBulk :: "RESP \<Rightarrow> (error + Value) \<times> RESP" where
  "readBulk r =
     (case readInteger r of
        (Inl err, r') \<Rightarrow> (Inl err, r')
      | (Inr (len, _), r1) \<Rightarrow>
          if len < 0 then (Inl Panic, r1)
          else let (got, r2) = bufRead (nat len) r1;
                   bulk = got @ replicate (nat len - length got) (CHR 0x00);
                   r3 = snd (readLine r2)
               in (Inr (Value ''bulk'' [] 0 bulk []), r3))"

lemma readLine_loop_remaining_le:
  "remaining (snd (readLine_loop line n r)) \<le> remaining r"
proof (induction "remaining r" arbitrary: line n r rule: less_induct)
  case less
  obtain res r' where rb: "ReadByte r = (res, r')" by (cases "ReadByte r")
  show ?case
  proof (cases res)
    case (Inl e)
    with rb ReadByte_remaining_le [of r] show ?thesis
      by (subst readLine_loop.simps) simp
  next
    case (Inr b)
    with rb have lt: "remaining r' < remaining r" by (auto dest: ReadByte_remaining)
    have "remaining (snd (readLine_loop (line @ [b]) (n + 1) r')) \<le> remaining r'"
      by (rule less [OF lt])
    with rb Inr lt show ?thesis
      by (subst readLine_loop.simps) (simp add: Let_def)
  qed
qed

lemma readLine_loop_remaining_lt:
  "readLine_loop line n r = (Inr x, r') \<Longrightarrow> remaining r' < remaining r"
proof -
  assume a: "readLine_loop line n r = (Inr x, r')"
  obtain res r1 where rb: "ReadByte r = (res, r1)" by (cases "ReadByte r")
  show ?thesis
  proof (cases res)
    case (Inl e)
    with rb a show ?thesis by (subst (asm) readLine_loop.simps) simp
  next
    case (Inr b)
    with rb have lt: "remaining r1 < remaining r" by (auto dest: ReadByte_remaining)
    from rb Inr a have "r' = r1 \<or> readLine_loop (line @ [b]) (n + 1) r1 = (Inr x, r')"
      by (subst (asm) readLine_loop.simps) (auto simp: Let_def split: if_splits)
    then show ?thesis
    proof
      assume "r' = r1"
      with lt show ?thesis by simp
    next
      assume "readLine_loop (line @ [b]) (n + 1) r1 = (Inr x, r')"
      then have "remaining r' \<le> remaining r1"
        using readLine_loop_remaining_le [of "line @ [b]" "n + 1" r1] by simp
      with lt show ?thesis by simp
    qed
  qed
qed

lemma readInteger_remaining_lt:
  "readInteger r = (Inr x, r') \<Longrightarrow> remaining r' < remaining r"
  by (auto simp: readInteger_def readLine_def split: prod.splits sum.splits
      dest: readLine_loop_remaining_lt)

lemma readInteger_remaining_le: "remaining (snd (readInteger r)) \<le> remaining r"
  using readLine_loop_remaining_le [of "[]" 0 r]
  by (auto simp: readInteger_def readLine_def split: prod.splits sum.splits)

lemma bufRead_remaining_le: "remaining (snd (bufRead n r)) \<le> remaining r"
  by (auto simp: bufRead_def remaining_def fill_def Let_def)

lemma readBulk_remaining_le: "remaining (snd (readBulk r)) \<le> remaining r"
proof -
  obtain res r1 where ri: "readInteger r = (res, r1)" by (cases "readInteger r")
  have 1: "remaining r1 \<le> remaining r" using readInteger_remaining_le [of r] ri by simp
  show ?thesis
  proof (cases res)
    case (Inl e)
    with ri 1 show ?thesis by (simp add: readBulk_def)
  next
    case (Inr p)
    obtain len k where p: "p = (len, k)" by (cases p)
    obtain got r2 where br: "bufRead (nat len) r1 = (got, r2)" by (cases "bufRead (nat len) r1")
    have 2: "remaining r2 \<le> remaining r1" using bufRead_remaining_le [of "nat len" r1] br by simp
    have 3: "remaining (snd (readLine r2)) \<le> remaining r2"
      using readLine_loop_remaining_le [of "[]" 0 r2] by (simp add: readLine_def)
    from ri Inr p br 1 2 3 show ?thesis
      by (simp add: readBulk_def Let_def)
  qed
qed


lemma readBulk_remaining_lt:
  "readBulk r = (Inr v, r') \<Longrightarrow> remaining r' < remaining r"
proof -
  assume a: "readBulk r = (Inr v, r')"
  obtain res r1 where ri: "readInteger r = (res, r1)" by (cases "readInteger r")
  show ?thesis
  proof (cases res)
    case (Inl e)
    with ri a show ?thesis by (simp add: readBulk_def)
  next
    case (Inr p)
    obtain len k where p: "p = (len, k)" by (cases p)
    obtain got r2 where br: "bufRead (nat len) r1 = (got, r2)" by (cases "bufRead (nat len) r1")
    have 1: "remaining r1 < remaining r" using readInteger_remaining_lt ri Inr by simp
    have 2: "remaining r2 \<le> remaining r1" using bufRead_remaining_le [of "nat len" r1] br by simp
    have 3: "remaining (snd (readLine r2)) \<le> remaining r2"
      using readLine_loop_remaining_le [of "[]" 0 r2] by (simp add: readLine_def)
    from ri Inr p br a have "r' = snd (readLine r2)"
      by (auto simp: readBulk_def Let_def split: if_splits)
    with 1 2 3 show ?thesis by simp
  qed
qed

text \<open>
  \<open>Read\<close> and \<open>readArray\<close> call each other; \<open>readArray_loop\<close> is the
  \<open>for i := 0; i < len; i++\<close> loop of \<open>readArray\<close>. On an unknown type byte
  \<open>Read\<close> prints a message and returns \<open>Value{}\<close> with a nil error.
\<close>

function Read :: "RESP \<Rightarrow> (error + Value) \<times> RESP"
  and readArray :: "RESP \<Rightarrow> (error + Value) \<times> RESP"
  and readArray_loop :: "int \<Rightarrow> int \<Rightarrow> Value list \<Rightarrow> RESP \<Rightarrow> (error + Value) \<times> RESP"
where
  "Read r =
     (case ReadByte r of
        (Inl err, r') \<Rightarrow> (Inl err, r')
      | (Inr ty, r') \<Rightarrow>
          if ty = ARRAY then readArray r'
          else if ty = BULK then readBulk r'
          else (Inr zeroValue, r'))"
| "readArray r =
     (case readInteger r of
        (Inl err, r') \<Rightarrow> (Inl err, r')
      | (Inr (len, _), r') \<Rightarrow> readArray_loop 0 len [] r')"
| "readArray_loop i len arr r =
     (if i < len then
        (case Read r of
           (Inl err, r') \<Rightarrow> (Inl err, r')
         | (Inr val, r') \<Rightarrow> readArray_loop (i + 1) len (arr @ [val]) r')
      else (Inr (Value ''array'' [] 0 [] arr), r))"
  by pat_completeness auto

lemma Read_dom_remaining:
  "Read_readArray_readArray_loop_dom (Inl r) \<Longrightarrow>
     remaining (snd (Read r)) \<le> remaining r \<and>
     (\<forall>v r'. Read r = (Inr v, r') \<longrightarrow> remaining r' < remaining r)"
  "Read_readArray_readArray_loop_dom (Inr (Inl r1)) \<Longrightarrow>
     remaining (snd (readArray r1)) \<le> remaining r1 \<and>
     (\<forall>v r'. readArray r1 = (Inr v, r') \<longrightarrow> remaining r' < remaining r1)"
  "Read_readArray_readArray_loop_dom (Inr (Inr (i, len, arr, r2))) \<Longrightarrow>
     remaining (snd (readArray_loop i len arr r2)) \<le> remaining r2"
proof (induction r and r1 and i len arr r2 rule: Read_readArray_readArray_loop.pinduct)
  case (1 r)
  obtain res r' where rb: "ReadByte r = (res, r')" by (cases "ReadByte r")
  show ?case
  proof (cases res)
    case (Inl e)
    with rb ReadByte_remaining_le [of r] show ?thesis
      by (simp add: Read.psimps [OF "1.hyps"])
  next
    case (Inr ty)
    with rb have lt: "remaining r' < remaining r" by (auto dest: ReadByte_remaining)
    consider "ty = ARRAY" | "ty \<noteq> ARRAY" "ty = BULK" | "ty \<noteq> ARRAY" "ty \<noteq> BULK" by blast
    then show ?thesis
    proof cases
      case 1
      have "remaining (snd (readArray r')) \<le> remaining r'"
        using "1.IH" [OF rb [symmetric] Inr 1] by simp
      with rb Inr 1 lt show ?thesis
        by (auto simp: Read.psimps [OF "1.hyps"])
    next
      case 2
      with rb Inr lt readBulk_remaining_le [of r'] show ?thesis
        by (auto simp: Read.psimps [OF "1.hyps"])
    next
      case 3
      with rb Inr lt show ?thesis
        by (auto simp: Read.psimps [OF "1.hyps"])
    qed
  qed
next
  case (2 r)
  obtain res r' where ri: "readInteger r = (res, r')" by (cases "readInteger r")
  show ?case
  proof (cases res)
    case (Inl e)
    with ri readInteger_remaining_le [of r] show ?thesis
      by (simp add: readArray.psimps [OF "2.hyps"])
  next
    case (Inr p)
    obtain len k where p: "p = (len, k)" by (cases p)
    have lt: "remaining r' < remaining r" using readInteger_remaining_lt ri Inr by simp
    have "remaining (snd (readArray_loop 0 len [] r')) \<le> remaining r'"
      using "2.IH" [OF ri [symmetric] Inr p [symmetric]] by simp
    with ri Inr p lt show ?thesis
      by (auto simp: readArray.psimps [OF "2.hyps"])
  qed
next
  case (3 i len arr r)
  show ?case
  proof (cases "i < len")
    case False
    then show ?thesis by (simp add: readArray_loop.psimps [OF "3.hyps"])
  next
    case True
    obtain res r' where rd: "Read r = (res, r')" by (cases "Read r")
    have le: "remaining r' \<le> remaining r" using "3.IH"(1) [OF True] rd by simp
    show ?thesis
    proof (cases res)
      case (Inl e)
      with rd True le show ?thesis by (simp add: readArray_loop.psimps [OF "3.hyps"])
    next
      case (Inr val)
      have "remaining (snd (readArray_loop (i + 1) len (arr @ [val]) r')) \<le> remaining r'"
        using "3.IH"(2) [OF True rd [symmetric] Inr] by simp
      with rd True le Inr show ?thesis by (simp add: readArray_loop.psimps [OF "3.hyps"])
    qed
  qed
qed

lemma Read_total: "All Read_readArray_readArray_loop_dom"
proof (relation "measure (\<lambda>x. case x of
          Inl r \<Rightarrow> 2 * remaining r
        | Inr (Inl r) \<Rightarrow> 2 * remaining r + 1
        | Inr (Inr (i, len, arr, r)) \<Rightarrow> 2 * remaining r + 1)", goal_cases)
  case 1
  show ?case by simp
next
  case (2 r x y b)
  then show ?case by (auto dest: ReadByte_remaining [OF sym])
next
  case (3 r x y b xa ya)
  then show ?case by (auto dest: readInteger_remaining_lt [OF sym])
next
  case (4 i len arr r)
  then show ?case by simp
next
  case (5 i len arr r x y b)
  from 5 have "Read r = (Inr b, y)" by simp
  moreover have "\<forall>v r'. Read r = (Inr v, r') \<longrightarrow> remaining r' < remaining r"
    using Read_dom_remaining(1) [of r] 5 by blast
  ultimately have "remaining y < remaining r" by blast
  then show ?case by simp
qed

termination Read
  by (rule Read_total)

declare Read.simps [simp del] readArray.simps [simp del] readArray_loop.simps [simp del]


lemma Read_remaining_lt: "Read r = (Inr v, r') \<Longrightarrow> remaining r' < remaining r"
  using Read_dom_remaining(1) [OF Read_total [THEN spec]] by blast

section \<open>The append-only file and the replay (aof.go, main.go)\<close>

text \<open>\<open>AOF.Write\<close> appends the serialization of the value to the file (the write
  itself is taken to succeed).\<close>

definition AOF_Write :: "Value \<Rightarrow> string \<Rightarrow> string" where
  "AOF_Write value file = file @ Marshal value"

text \<open>
  \<open>AOF.Read\<close> reads the file from its beginning with a new \<open>RESP\<close> and calls
  \<open>fn\<close> on every value read, until \<open>Read\<close> returns an error: \<open>io.EOF\<close> ends the
  loop with a nil error, any other error is returned. The result is the error, if any,
  with the state that the calls of \<open>fn\<close> made so far have left; \<open>fn\<close> may panic.
\<close>

function AOF_Read_loop ::
  "(Value \<Rightarrow> 's \<Rightarrow> error + 's) \<Rightarrow> RESP \<Rightarrow> 's \<Rightarrow> error option \<times> 's" where
  "AOF_Read_loop fn reader st =
     (case Read reader of
        (Inl err, reader') \<Rightarrow> if err = EOF then (None, st) else (Some err, st)
      | (Inr value, reader') \<Rightarrow>
          (case fn value st of
             Inl e \<Rightarrow> (Some e, st)
           | Inr st' \<Rightarrow> AOF_Read_loop fn reader' st'))"
  by pat_completeness auto
termination
  by (relation "measure (\<lambda>(fn, reader, st). remaining reader)")
     (auto dest: Read_remaining_lt [OF sym])

declare AOF_Read_loop.simps [simp del]

definition AOF_Read :: "string \<Rightarrow> (Value \<Rightarrow> 's \<Rightarrow> error + 's) \<Rightarrow> 's \<Rightarrow> error option \<times> 's" where
  "AOF_Read file fn st = AOF_Read_loop fn (NewRESP file) st"

text \<open>
  The function that \<open>main\<close> passes to \<open>AOF.Read\<close>: \<open>value.array[0]\<close> panics on an
  empty array; a command that is not in the table is reported and skipped.
\<close>

definition replayFn ::
  "((string \<rightharpoonup> string) \<Rightarrow> string list) \<Rightarrow> Value \<Rightarrow> store \<Rightarrow> error + store" where
  "replayFn ord value st =
     (case array value of
        [] \<Rightarrow> Inl Panic
      | v0 # args \<Rightarrow>
          (let command = ToUpper (bulk v0)
           in case Handlers ord command of
                None \<Rightarrow> Inr st
              | Some handler \<Rightarrow> Inr (snd (handler args st))))"

text \<open>The replay at start-up: the global maps are empty when \<open>main\<close> begins.\<close>

definition replay :: "((string \<rightharpoonup> string) \<Rightarrow> string list) \<Rightarrow> string \<Rightarrow> error option \<times> store" where
  "replay ord file = AOF_Read file (replayFn ord) emptyStore"

text \<open>
  The body of the loop of \<open>handleClient\<close> for a value that \<open>resp.Read\<close> has returned:
  the reply written to the client, the state of the maps and the contents of the file
  afterwards.
\<close>

definition handleValue ::
  "((string \<rightharpoonup> string) \<Rightarrow> string list) \<Rightarrow> Value \<Rightarrow> store \<times> string \<Rightarrow> Value \<times> store \<times> string" where
  "handleValue ord value s =
     (let st = fst s; aof = snd s
      in if typ' value \<noteq> ''array'' \<or> length (array value) = 0
         then (Value ''error'' ''ERR invalid request format'' 0 [] [], st, aof)
         else let command = ToUpper (bulk (array value ! 0)); args = tl (array value)
              in case Handlers ord command of
                   None \<Rightarrow> (Value ''error'' (''ERR unknown command: '' @ command) 0 [] [], st, aof)
                 | Some handler \<Rightarrow>
                     (let aof' = (if command = ''SET'' \<or> command = ''DEL'' \<or> command = ''HSET''
                                     \<or> command = ''INCR''
                                  then AOF_Write value aof else aof);
                          (result, st') = handler args st
                      in (result, st', aof')))"

text \<open>A client's requests handled one after the other: the state and the file at the end.\<close>

fun handleValues ::
  "((string \<rightharpoonup> string) \<Rightarrow> string list) \<Rightarrow> Value list \<Rightarrow> store \<times> string \<Rightarrow> store \<times> string" where
  "handleValues ord [] s = s"
| "handleValues ord (value # values) s = handleValues ord values (snd (handleValue ord value s))"

section \<open>The words of the specification\<close>

text \<open>The arity that the specification's table of commands declares for each command.\<close>

definition declaredArity :: "string \<Rightarrow> nat \<Rightarrow> bool" where
  "declaredArity cmd n =
     (if cmd = ''PING'' then n = 0 \<or> n = 1
      else if cmd = ''SET'' then n = 2
      else if cmd = ''GET'' then n = 1
      else if cmd = ''DEL'' then 1 \<le> n
      else if cmd = ''EXISTS'' then 1 \<le> n
      else if cmd = ''INCR'' then n = 1
      else if cmd = ''HSET'' then n = 3
      else if cmd = ''HGET'' then n = 2
      else if cmd = ''HGETALL'' then n = 1
      else True)"

text \<open>The wire values that are a BulkString, or an Array of values that are such in
  turn: the kinds that a request is made of.\<close>

fun bulkOrArray :: "Value \<Rightarrow> bool" where
  "bulkOrArray (Value t s n b arr) =
     (s = [] \<and> n = 0 \<and>
      (t = ''bulk'' \<and> arr = [] \<or> t = ''array'' \<and> b = [] \<and> list_all bulkOrArray arr))"

text \<open>A mutating request: a well-formed Array of BulkStrings whose command name is one
  of those that \<open>handleClient\<close> appends to the file.\<close>

definition mutatingRequest :: "Value \<Rightarrow> bool" where
  "mutatingRequest v =
     (bulkOrArray v \<and> typ' v = ''array'' \<and> array v \<noteq> []
      \<and> list_all (\<lambda>x. typ' x = ''bulk'') (array v)
      \<and> ToUpper (bulk (hd (array v))) \<in> {''SET'', ''DEL'', ''HSET'', ''INCR''})"

text \<open>The lowercased command name of the arity message.\<close>

definition lowerByte :: "char \<Rightarrow> char" where
  "lowerByte c =
     (if 65 \<le> (of_char c :: nat) \<and> (of_char c :: nat) \<le> 90
      then char_of ((of_char c :: nat) + 32) else c)"

definition lowercase :: "string \<Rightarrow> string" where
  "lowercase s = map lowerByte s"


text \<open>The request \<open>SET k v\<close> with a value \<open>v\<close> of 5000 bytes.\<close>

definition longSetRequest :: Value where
  "longSetRequest =
     Value ''array'' [] 0 []
       [Value ''bulk'' [] 0 ''SET'' [], Value ''bulk'' [] 0 ''k'' [],
        Value ''bulk'' [] 0 (replicate 5000 (CHR ''a'')) []]"

section \<open>Number conversions\<close>

lemma digit_chars:
  "char_of (48::nat) = CHR ''0''" "char_of (49::nat) = CHR ''1''" "char_of (50::nat) = CHR ''2''"
  "char_of (51::nat) = CHR ''3''" "char_of (52::nat) = CHR ''4''" "char_of (53::nat) = CHR ''5''"
  "char_of (54::nat) = CHR ''6''" "char_of (55::nat) = CHR ''7''" "char_of (56::nat) = CHR ''8''"
  "char_of (57::nat) = CHR ''9''"
  by code_simp+

lemma Itoa_max: "Itoa 9223372036854775807 = ''9223372036854775807''"
  by (simp add: Itoa_def formatBits.simps digit_chars)

lemma Itoa_min: "Itoa (- 9223372036854775808) = ''-9223372036854775808''"
  by (simp add: Itoa_def formatBits.simps digit_chars)

lemma Itoa_1: "Itoa 1 = ''1''"
  by (simp add: Itoa_def formatBits.simps digit_chars)

lemma Itoa_3: "Itoa 3 = ''3''"
  by (simp add: Itoa_def formatBits.simps digit_chars)

lemma int64_wrap: "int64 (9223372036854775807 + 1) = - 9223372036854775808"
  by (simp add: int64_def)

lemma isDigit_char_of: "d < 10 \<Longrightarrow> isDigit (char_of (48 + d :: nat))"
  by (simp add: isDigit_def)

lemma digitVal_char_of: "d < 10 \<Longrightarrow> digitVal (char_of (48 + d :: nat)) = d"
  by (simp add: digitVal_def)

lemma parseDigits_snoc: "parseDigits (ds @ [c]) = parseDigits ds * 10 + digitVal c"
  by (simp add: parseDigits_def)

lemma parseDigits_single: "parseDigits [c] = digitVal c"
  by (simp add: parseDigits_def)

lemma formatBits_props:
  "formatBits n \<noteq> [] \<and> list_all isDigit (formatBits n) \<and> parseDigits (formatBits n) = n"
proof (induction n rule: formatBits.induct)
  case (1 n)
  show ?case
  proof (cases "n < 10")
    case True
    then have "formatBits n = [char_of (48 + n)]"
      by (subst formatBits.simps) simp
    with True show ?thesis
      by (simp add: isDigit_char_of digitVal_char_of parseDigits_single)
  next
    case False
    have d: "n mod 10 < 10" by simp
    from False 1 have ih: "list_all isDigit (formatBits (n div 10))"
      "parseDigits (formatBits (n div 10)) = n div 10" by simp_all
    have eq: "formatBits n = formatBits (n div 10) @ [char_of (48 + n mod 10)]"
      using False by (subst formatBits.simps) simp
    show ?thesis
      unfolding eq using ih
      by (simp add: isDigit_char_of [OF d] digitVal_char_of [OF d] parseDigits_snoc)
  qed
qed

lemma isDigit_not_sign: "isDigit c \<Longrightarrow> c \<noteq> CHR ''+'' \<and> c \<noteq> CHR ''-''"
  by (auto simp: isDigit_def)

lemma Atoi_Itoa_nonneg: "0 \<le> i \<Longrightarrow> i < 2 ^ 63 \<Longrightarrow> Atoi (Itoa i) = Inr i"
proof -
  assume a: "0 \<le> i" "i < 2 ^ 63"
  obtain c cs where f: "formatBits (nat i) = c # cs"
    using formatBits_props [of "nat i"] by (cases "formatBits (nat i)") auto
  have dg: "list_all isDigit (c # cs)" and pv: "parseDigits (c # cs) = nat i"
    using formatBits_props [of "nat i"] f by simp_all
  have ns: "c \<noteq> CHR ''+''" "c \<noteq> CHR ''-''"
    using dg isDigit_not_sign [of c] by simp_all
  have bound: "\<not> (2 ^ 63 \<le> nat i)" using a by (simp add: nat_less_iff le_nat_iff)
  have "ParseInt (c # cs) = Inr i"
    unfolding ParseInt_def using a ns dg bound by (simp add: pv Let_def)
  then show ?thesis
    using a by (simp add: Atoi_def Itoa_def f)
qed



lemma int64_id: "- (2 ^ 63) \<le> x \<Longrightarrow> x < 2 ^ 63 \<Longrightarrow> int64 x = x"
  by (simp add: int64_def)

lemma handleIncr_absent:
  "SETs st (bulk a) = None \<Longrightarrow>
   handleIncr [a] st = (Value ''integer'' [] 1 [] [], st\<lparr>SETs := (SETs st)(bulk a \<mapsto> ''1'')\<rparr>)"
  by (simp add: handleIncr_def)

lemma handleIncr_present:
  "SETs st (bulk a) = Some (Itoa i) \<Longrightarrow> 0 \<le> i \<Longrightarrow> i < 2 ^ 63 \<Longrightarrow>
   handleIncr [a] st =
     (Value ''integer'' [] (int64 (i + 1)) [] [],
      st\<lparr>SETs := (SETs st)(bulk a \<mapsto> Itoa (int64 (i + 1)))\<rparr>)"
  by (simp add: handleIncr_def Atoi_Itoa_nonneg Let_def)

lemma store_collapse:
  "(st\<lparr>SETs := m\<rparr>)\<lparr>SETs := (SETs (st\<lparr>SETs := m\<rparr>))(k \<mapsto> x)\<rparr> = st\<lparr>SETs := m(k \<mapsto> x)\<rparr>"
  by simp

lemma handleIncr_step:
  assumes "0 \<le> i" and "i < 2 ^ 63 - 1"
  shows "handleIncr [a] (st\<lparr>SETs := (SETs st)(bulk a \<mapsto> Itoa i)\<rparr>) =
    (Value ''integer'' [] (i + 1) [] [], st\<lparr>SETs := (SETs st)(bulk a \<mapsto> Itoa (i + 1))\<rparr>)"
proof -
  let ?S = "st\<lparr>SETs := (SETs st)(bulk a \<mapsto> Itoa i)\<rparr>"
  have pres: "SETs ?S (bulk a) = Some (Itoa i)" by simp
  have lt: "i < 2 ^ 63" using assms(2) by simp
  have w: "int64 (i + 1) = i + 1" using assms by (simp add: int64_id)
  have "handleIncr [a] ?S =
     (Value ''integer'' [] (int64 (i + 1)) [] [],
      ?S\<lparr>SETs := (SETs ?S)(bulk a \<mapsto> Itoa (int64 (i + 1)))\<rparr>)"
    by (rule handleIncr_present [OF pres assms(1) lt])
  then show ?thesis
    by (simp only: w store_collapse fun_upd_upd)
qed

lemma incr_iterate:
  assumes "SETs st (bulk a) = None"
  shows "n < 2 ^ 63 - 1 \<Longrightarrow>
    ((\<lambda>s. snd (handleIncr [a] s)) ^^ Suc n) st =
      st\<lparr>SETs := (SETs st)(bulk a \<mapsto> Itoa (int (Suc n)))\<rparr>"
proof (induction n)
  case 0
  have "((\<lambda>s. snd (handleIncr [a] s)) ^^ Suc 0) st = snd (handleIncr [a] st)" by simp
  also have "\<dots> = st\<lparr>SETs := (SETs st)(bulk a \<mapsto> ''1'')\<rparr>"
    by (simp add: handleIncr_absent [OF assms])
  also have "\<dots> = st\<lparr>SETs := (SETs st)(bulk a \<mapsto> Itoa (int (Suc 0)))\<rparr>"
    by (simp add: Itoa_1)
  finally show ?case .
next
  case (Suc n)
  have lt: "n < 2 ^ 63 - 1" using Suc.prems by simp
  have ih: "((\<lambda>s. snd (handleIncr [a] s)) ^^ Suc n) st =
      st\<lparr>SETs := (SETs st)(bulk a \<mapsto> Itoa (int (Suc n)))\<rparr>"
    by (rule Suc.IH [OF lt])
  have "Suc (Suc n) < 2 ^ 63" using Suc.prems by simp
  then have "int (Suc (Suc n)) < int (2 ^ 63)" by (simp only: of_nat_less_iff)
  then have b: "int (Suc n) < 2 ^ 63 - 1" by simp
  have e: "int (Suc n) + 1 = int (Suc (Suc n))" by simp
  have "((\<lambda>s. snd (handleIncr [a] s)) ^^ Suc (Suc n)) st =
      snd (handleIncr [a] (((\<lambda>s. snd (handleIncr [a] s)) ^^ Suc n) st))"
    by simp
  also have "\<dots> = st\<lparr>SETs := (SETs st)(bulk a \<mapsto> Itoa (int (Suc (Suc n))))\<rparr>"
    by (simp only: ih handleIncr_step [OF _ b] of_nat_0_le_iff snd_conv e)
  finally show ?case .
qed


section \<open>The command handlers: arity, SET and GET, INCR, PING\<close>

lemma Handlers_lookup:
  "Handlers ord ''PING'' = Some handlePing"
  "Handlers ord ''SET'' = Some handleSet"
  "Handlers ord ''GET'' = Some handleGet"
  "Handlers ord ''DEL'' = Some handleDel"
  "Handlers ord ''EXISTS'' = Some handleExists"
  "Handlers ord ''INCR'' = Some handleIncr"
  "Handlers ord ''HSET'' = Some handleHSet"
  "Handlers ord ''HGET'' = Some handleHGet"
  "Handlers ord ''HGETALL'' = Some (handleHGetAll ord)"
  by (simp_all add: Handlers_def)

lemma lowercase_names:
  "lowercase ''SET'' = ''set''" "lowercase ''GET'' = ''get''" "lowercase ''DEL'' = ''del''"
  "lowercase ''EXISTS'' = ''exists''" "lowercase ''INCR'' = ''incr''"
  "lowercase ''HSET'' = ''hset''" "lowercase ''HGET'' = ''hget''"
  "lowercase ''HGETALL'' = ''hgetall''"
  by code_simp+

text \<open>
  C8. For every state, key \<open>k\<close> and value \<open>v\<close>, \<open>SET k v\<close> followed by \<open>GET k\<close>
  returns the bulk string \<open>v\<close>; and \<open>GET\<close> on a key that the scalar space does not
  hold returns Null. The key and the value of a command are the \<open>bulk\<close> fields of its
  arguments.
\<close>

theorem set_then_get:
  "(bulk k' = bulk k \<longrightarrow>
      fst (handleGet [k'] (snd (handleSet [k, v] st))) = Value ''bulk'' [] 0 (bulk v) [])
   \<and> (SETs st (bulk k) = None \<longrightarrow> fst (handleGet [k] st) = Value ''null'' [] 0 [] [])"
  by (simp add: handleGet_def handleSet_def)

theorem set_then_get_witness:
  "fst (handleGet [Value ''bulk'' [] 0 ''k'' []]
          (snd (handleSet [Value ''bulk'' [] 0 ''k'' [], Value ''bulk'' [] 0 ''v'' []] emptyStore)))
     = Value ''bulk'' [] 0 ''v'' []
   \<and> fst (handleGet [Value ''bulk'' [] 0 ''k'' []] emptyStore) = Value ''null'' [] 0 [] []"
  using set_then_get [of "Value ''bulk'' [] 0 ''k'' []" "Value ''bulk'' [] 0 ''k'' []"
      "Value ''bulk'' [] 0 ''v'' []" emptyStore]
  by (simp add: emptyStore_def)

text \<open>
  C6. When the key of \<open>INCR\<close> holds a string that does not parse as a base-10 integer
  (\<open>strconv.Atoi\<close> returns an error), \<open>INCR\<close> returns the Error value
  \<open>ERR value is not an integer\<close> and leaves the whole state as it was.
\<close>

theorem incr_non_integer:
  "SETs st (bulk a) = Some s \<Longrightarrow> Atoi s = Inl e \<Longrightarrow>
   handleIncr [a] st = (Value ''error'' ''ERR value is not an integer'' 0 [] [], st)"
  by (simp add: handleIncr_def)

theorem incr_non_integer_witness:
  "handleIncr [Value ''bulk'' [] 0 ''k'' []] (emptyStore\<lparr>SETs := [''k'' \<mapsto> ''abc'']\<rparr>)
   = (Value ''error'' ''ERR value is not an integer'' 0 [] [],
      emptyStore\<lparr>SETs := [''k'' \<mapsto> ''abc'']\<rparr>)"
proof -
  have 1: "SETs (emptyStore\<lparr>SETs := [''k'' \<mapsto> ''abc'']\<rparr>) (bulk (Value ''bulk'' [] 0 ''k'' []))
           = Some ''abc''" by simp
  have 2: "Atoi ''abc'' = Inl NumError"
    by (simp add: Atoi_def ParseInt_def isDigit_def)
  show ?thesis by (rule incr_non_integer [OF 1 2])
qed

text \<open>
  C10. With two or more arguments \<open>PING\<close> returns no arity error: it returns the simple
  string holding the bulk payload of its first argument, whatever the other arguments
  are, and leaves the state as it was.
\<close>

theorem ping_many_args:
  "2 \<le> length args \<Longrightarrow>
   handlePing args st = (Value ''string'' (bulk (hd args)) 0 [] [], st)
   \<and> typ' (fst (handlePing args st)) \<noteq> ''error''"
  by (cases args) (simp_all add: handlePing_def)

theorem ping_many_args_witness:
  "handlePing [Value ''bulk'' [] 0 ''a'' [], Value ''bulk'' [] 0 ''b'' []] emptyStore
     = (Value ''string'' ''a'' 0 [] [], emptyStore)"
  using ping_many_args [of "[Value ''bulk'' [] 0 ''a'' [], Value ''bulk'' [] 0 ''b'' []]" emptyStore]
  by simp

text \<open>
  C7, as stated: every one of the nine commands, called with a number of arguments that
  violates its declared arity, returns the arity Error value and changes no state. That
  is false for \<open>PING\<close>, whose declared arity is 0 or 1: with two arguments it answers
  with a simple string.
\<close>

theorem ping_arity_counterexample:
  "\<not> declaredArity ''PING'' (length [Value ''bulk'' [] 0 ''a'' [], Value ''bulk'' [] 0 ''b'' []])
   \<and> map_option (\<lambda>h. h [Value ''bulk'' [] 0 ''a'' [], Value ''bulk'' [] 0 ''b'' []] emptyStore)
        (Handlers (\<lambda>m. []) ''PING'') = Some (Value ''string'' ''a'' 0 [] [], emptyStore)"
  by (simp add: declaredArity_def Handlers_def handlePing_def)

text \<open>
  C7, amended: every command of the table other than \<open>PING\<close>, called with a number of
  arguments that violates its declared arity, returns the Error value
  \<open>ERR wrong number of arguments for '<cmd>' command\<close> with the lowercased command
  name, and leaves the scalar space and the hash space as they were.
\<close>

theorem arity_violation:
  assumes "cmd \<in> {''SET'', ''GET'', ''DEL'', ''EXISTS'', ''INCR'', ''HSET'', ''HGET'', ''HGETALL''}"
    and "\<not> declaredArity cmd (length args)"
  shows "map_option (\<lambda>h. h args st) (Handlers ord cmd) = Some (arityError (lowercase cmd), st)"
  using assms(1)
proof (elim insertE emptyE)
  assume c: "cmd = ''SET''"
  with assms(2) have "length args \<noteq> 2" by (simp add: declaredArity_def)
  then show ?thesis unfolding c by (simp add: Handlers_lookup lowercase_names handleSet_def)
next
  assume c: "cmd = ''GET''"
  with assms(2) have "length args \<noteq> 1" by (simp add: declaredArity_def)
  then show ?thesis unfolding c by (simp add: Handlers_lookup lowercase_names handleGet_def)
next
  assume c: "cmd = ''DEL''"
  with assms(2) have "length args = 0" by (cases args) (simp_all add: declaredArity_def)
  then show ?thesis unfolding c by (simp add: Handlers_lookup lowercase_names handleDel_def)
next
  assume c: "cmd = ''EXISTS''"
  with assms(2) have "length args = 0" by (cases args) (simp_all add: declaredArity_def)
  then show ?thesis unfolding c by (simp add: Handlers_lookup lowercase_names handleExists_def)
next
  assume c: "cmd = ''INCR''"
  with assms(2) have "length args \<noteq> 1" by (simp add: declaredArity_def)
  then show ?thesis unfolding c by (simp add: Handlers_lookup lowercase_names handleIncr_def)
next
  assume c: "cmd = ''HSET''"
  with assms(2) have "length args \<noteq> 3" by (simp add: declaredArity_def)
  then show ?thesis unfolding c by (simp add: Handlers_lookup lowercase_names handleHSet_def)
next
  assume c: "cmd = ''HGET''"
  with assms(2) have "length args \<noteq> 2" by (simp add: declaredArity_def)
  then show ?thesis unfolding c by (simp add: Handlers_lookup lowercase_names handleHGet_def)
next
  assume c: "cmd = ''HGETALL''"
  with assms(2) have "length args \<noteq> 1" by (simp add: declaredArity_def)
  then show ?thesis unfolding c by (simp add: Handlers_lookup lowercase_names handleHGetAll_def)
qed

theorem arity_violation_witness:
  "map_option (\<lambda>h. h [Value ''bulk'' [] 0 ''k'' []] emptyStore) (Handlers (\<lambda>m. []) ''SET'')
   = Some (Value ''error'' ''ERR wrong number of arguments for 'set' command'' 0 [] [], emptyStore)"
proof -
  have 1: "''SET'' \<in> {''SET'', ''GET'', ''DEL'', ''EXISTS'', ''INCR'', ''HSET'', ''HGET'', ''HGETALL''}"
    by simp
  have 2: "\<not> declaredArity ''SET'' (length [Value ''bulk'' [] 0 ''k'' []])"
    by (simp add: declaredArity_def)
  show ?thesis
    using arity_violation [OF 1 2, of emptyStore "\<lambda>m. []"]
    by (simp add: arityError_def lowercase_names)
qed

text \<open>
  C9, as stated: for every \<open>N \<ge> 1\<close>, the \<open>N\<close>-th \<open>INCR\<close> of a key that was absent
  returns the integer \<open>N\<close> and stores its decimal string. The counter is a 64-bit
  \<open>int\<close>: the call number \<open>2\<^sup>6\<^sup>3\<close> finds 9223372036854775807 stored, and
  \<open>intValue++\<close> wraps around to the least 64-bit integer.
\<close>

theorem incr_overflow_counterexample:
  "handleIncr [Value ''bulk'' [] 0 ''k'' []]
     (((\<lambda>s. snd (handleIncr [Value ''bulk'' [] 0 ''k'' []] s)) ^^ (2 ^ 63 - 1)) emptyStore)
   = (Value ''integer'' [] (- 9223372036854775808) [] [],
      emptyStore\<lparr>SETs := (SETs emptyStore)(''k'' \<mapsto> ''-9223372036854775808'')\<rparr>)"
proof -
  let ?a = "Value ''bulk'' [] 0 ''k'' []"
  let ?S = "emptyStore\<lparr>SETs := (SETs emptyStore)(''k'' \<mapsto> ''9223372036854775807'')\<rparr>"
  have abs: "SETs emptyStore (bulk ?a) = None" by (simp add: emptyStore_def)
  have n: "(2 ^ 63 - 1 :: nat) = Suc 9223372036854775806" by simp
  have i: "int (Suc 9223372036854775806) = 9223372036854775807" by simp
  have "((\<lambda>s. snd (handleIncr [?a] s)) ^^ (2 ^ 63 - 1)) emptyStore = ?S"
    unfolding n using incr_iterate [OF abs, of 9223372036854775806]
    by (simp only: i Itoa_max Value.sel) simp
  moreover have "handleIncr [?a] ?S =
     (Value ''integer'' [] (int64 (9223372036854775807 + 1)) [] [],
      ?S\<lparr>SETs := (SETs ?S)(bulk ?a \<mapsto> Itoa (int64 (9223372036854775807 + 1)))\<rparr>)"
    by (rule handleIncr_present) (simp_all add: Itoa_max)
  ultimately show ?thesis
    by (simp only: int64_wrap Itoa_min store_collapse fun_upd_upd Value.sel)
qed

text \<open>
  C9, amended: \<open>INCR\<close> of an absent key returns the integer 1 and stores the string
  \<open>1\<close>; and for every \<open>N\<close> from 1 to \<open>2\<^sup>6\<^sup>3 - 1\<close>, the \<open>N\<close>-th of \<open>N\<close>
  successive \<open>INCR\<close>s of a key that was absent returns the integer \<open>N\<close> and leaves
  the decimal string of \<open>N\<close> stored at the key, the rest of the state unchanged.
\<close>

theorem incr_from_absent:
  assumes "SETs st (bulk a) = None" and "1 \<le> N" and "N < 2 ^ 63"
  shows "handleIncr [a] st =
           (Value ''integer'' [] 1 [] [], st\<lparr>SETs := (SETs st)(bulk a \<mapsto> ''1'')\<rparr>)
       \<and> handleIncr [a] (((\<lambda>s. snd (handleIncr [a] s)) ^^ (N - 1)) st) =
           (Value ''integer'' [] (int N) [] [],
            st\<lparr>SETs := (SETs st)(bulk a \<mapsto> Itoa (int N))\<rparr>)"
proof (cases "N = 1")
  case True
  have "Itoa (int N) = ''1''" using True by (simp add: Itoa_1)
  then show ?thesis using True by (simp add: handleIncr_absent [OF assms(1)])
next
  case False
  then obtain n where n: "N = Suc (Suc n)" using assms(2)
    by (metis One_nat_def Suc_le_D not0_implies_Suc Suc_inject)
  have b: "n < 2 ^ 63 - 1" using assms(3) n by simp
  have "int N < 2 ^ 63" using assms(3) by simp
  then have b': "int (Suc n) < 2 ^ 63 - 1" using n by simp
  have e: "int (Suc n) + 1 = int N" using n by simp
  have "handleIncr [a] (((\<lambda>s. snd (handleIncr [a] s)) ^^ (N - 1)) st) =
        handleIncr [a] (st\<lparr>SETs := (SETs st)(bulk a \<mapsto> Itoa (int (Suc n)))\<rparr>)"
    using incr_iterate [OF assms(1) b] n by simp
  also have "\<dots> = (Value ''integer'' [] (int N) [] [],
            st\<lparr>SETs := (SETs st)(bulk a \<mapsto> Itoa (int N))\<rparr>)"
    by (simp only: handleIncr_step [OF _ b'] of_nat_0_le_iff e)
  finally show ?thesis by (simp add: handleIncr_absent [OF assms(1)])
qed

theorem incr_from_absent_witness:
  "handleIncr [Value ''bulk'' [] 0 ''k'' []]
     (((\<lambda>s. snd (handleIncr [Value ''bulk'' [] 0 ''k'' []] s)) ^^ (3 - 1)) emptyStore)
   = (Value ''integer'' [] 3 [] [], emptyStore\<lparr>SETs := (SETs emptyStore)(''k'' \<mapsto> ''3'')\<rparr>)"
proof -
  have 1: "SETs emptyStore (bulk (Value ''bulk'' [] 0 ''k'' [])) = None"
    by (simp add: emptyStore_def)
  have 2: "1 \<le> (3::nat)" and 3: "(3::nat) < 2 ^ 63" by simp_all
  have 4: "Itoa (int 3) = ''3''" by (simp add: Itoa_3)
  show ?thesis
    using incr_from_absent [OF 1 2 3, THEN conjunct2] unfolding 4 by simp
qed

section \<open>The decoder on bytes that the buffer holds\<close>

lemma ReadByte_buf: "ReadByte (RESP (c # cs) s) = (Inr c, RESP cs s)"
  by (simp add: ReadByte_def)

lemma readLine_continue:
  "line = [] \<or> last line \<noteq> CHR 0x0D \<Longrightarrow>
   \<not> (2 \<le> length (line @ [b]) \<and> (line @ [b]) ! (length (line @ [b]) - 2) = CHR 0x0D)"
  by (cases "line = []") (auto simp: nth_append last_conv_nth)

lemma readLine_loop_step:
  "line = [] \<or> last line \<noteq> CHR 0x0D \<Longrightarrow>
   readLine_loop line n (RESP (b # bs) s) = readLine_loop (line @ [b]) (n + 1) (RESP bs s)"
  using readLine_continue [of line b]
  by (subst readLine_loop.simps) (auto simp: ReadByte_buf Let_def)

lemma readLine_loop_stop:
  "readLine_loop (line @ [CHR 0x0D]) n (RESP (c # rest) s) = (Inr (line, n + 1), RESP rest s)"
  by (subst readLine_loop.simps) (simp add: ReadByte_buf Let_def nth_append)

lemma readLine_loop_buf:
  "CHR 0x0D \<notin> set xs \<Longrightarrow> line = [] \<or> last line \<noteq> CHR 0x0D \<Longrightarrow>
   readLine_loop line n (RESP (xs @ CHR 0x0D # c # rest) s)
     = (Inr (line @ xs, n + length xs + 2), RESP rest s)"
proof (induction xs arbitrary: line n)
  case Nil
  then show ?case by (simp add: readLine_loop_step readLine_loop_stop)
next
  case (Cons x xs)
  then have x: "x \<noteq> CHR 0x0D" and xs: "CHR 0x0D \<notin> set xs" by auto
  have "readLine_loop line n (RESP ((x # xs) @ CHR 0x0D # c # rest) s)
      = readLine_loop (line @ [x]) (n + 1) (RESP (xs @ CHR 0x0D # c # rest) s)"
    using Cons.prems(2) by (simp add: readLine_loop_step)
  also have "\<dots> = (Inr ((line @ [x]) @ xs, n + 1 + length xs + 2), RESP rest s)"
    by (rule Cons.IH [OF xs]) (simp add: x)
  finally show ?case by simp
qed

lemma isDigit_not_CR: "isDigit c \<Longrightarrow> c \<noteq> CHR 0x0D"
  by (auto simp: isDigit_def)

lemma formatBits_no_CR: "CHR 0x0D \<notin> set (formatBits n)"
  using formatBits_props [of n] isDigit_not_CR by (auto simp: list_all_iff)

lemma ParseInt_Itoa_nonneg: "0 \<le> i \<Longrightarrow> i < 2 ^ 63 \<Longrightarrow> ParseInt (Itoa i) = Inr i"
  using Atoi_Itoa_nonneg [of i] by (simp add: Atoi_def)

lemma readInteger_Itoa:
  assumes "0 \<le> i" and "i < 2 ^ 63"
  shows "readInteger (RESP (Itoa i @ CRLF @ rest) s)
     = (Inr (i, length (Itoa i) + 2), RESP rest s)"
proof -
  have f: "Itoa i = formatBits (nat i)" using assms(1) by (simp add: Itoa_def)
  have "readLine (RESP (Itoa i @ CRLF @ rest) s) = (Inr (Itoa i, length (Itoa i) + 2), RESP rest s)"
    unfolding readLine_def f CRLF_def
    using readLine_loop_buf [of "formatBits (nat i)" "[]" 0 "CHR 0x0A" rest s] formatBits_no_CR
    by simp
  then show ?thesis
    by (simp add: readInteger_def ParseInt_Itoa_nonneg [OF assms])
qed


lemma bufRead_buf:
  "bufRead (length b) (RESP (b @ c # rest) s) = (b, RESP (c # rest) s)"
  by (cases b) (simp_all add: bufRead_def)

lemma readBulk_buf:
  assumes "int (length b) < 2 ^ 63"
  shows "readBulk (RESP (Itoa (int (length b)) @ CRLF @ b @ CRLF @ rest) s)
     = (Inr (Value ''bulk'' [] 0 b []), RESP rest s)"
proof -
  have 1: "readInteger (RESP (Itoa (int (length b)) @ CRLF @ b @ CRLF @ rest) s)
      = (Inr (int (length b), length (Itoa (int (length b))) + 2), RESP (b @ CRLF @ rest) s)"
    by (rule readInteger_Itoa) (use assms in simp_all)
  have 2: "bufRead (length b) (RESP (b @ CRLF @ rest) s) = (b, RESP (CRLF @ rest) s)"
    unfolding CRLF_def using bufRead_buf [of b "CHR 0x0D" "CHR 0x0A # rest" s] by simp
  have 3: "readLine (RESP (CRLF @ rest) s) = (Inr ([], 2), RESP rest s)"
    unfolding readLine_def CRLF_def
    using readLine_loop_buf [of "[]" "[]" 0 "CHR 0x0A" rest s] by simp
  show ?thesis
    by (simp add: readBulk_def 1 2 3)
qed

lemma readArray_loop_buf:
  assumes "\<And>v rest. v \<in> set vs \<Longrightarrow> Read (RESP (Marshal v @ rest) s) = (Inr v, RESP rest s)"
    and "len = i + int (length vs)"
  shows "readArray_loop i len acc (RESP (concat (map Marshal vs) @ rest) s)
     = (Inr (Value ''array'' [] 0 [] (acc @ vs)), RESP rest s)"
  using assms
proof (induction vs arbitrary: i acc)
  case Nil
  then show ?case by (subst readArray_loop.simps) simp
next
  case (Cons v vs)
  have lt: "i < len" using Cons.prems(2) by simp
  have rd: "Read (RESP (Marshal v @ concat (map Marshal vs) @ rest) s)
      = (Inr v, RESP (concat (map Marshal vs) @ rest) s)"
    by (rule Cons.prems(1)) simp
  have "readArray_loop i len acc (RESP (concat (map Marshal (v # vs)) @ rest) s)
      = readArray_loop (i + 1) len (acc @ [v]) (RESP (concat (map Marshal vs) @ rest) s)"
    using lt rd by (subst readArray_loop.simps) simp
  also have "\<dots> = (Inr (Value ''array'' [] 0 [] ((acc @ [v]) @ vs)), RESP rest s)"
    by (rule Cons.IH) (use Cons.prems in auto)
  finally show ?case by simp
qed

lemma bulkOrArray_Marshal_nonempty: "bulkOrArray v \<Longrightarrow> Marshal v \<noteq> []"
  by (cases v) (auto simp: marshalBulk_def)

lemma length_le_concat:
  "(\<And>x. x \<in> set xs \<Longrightarrow> f x \<noteq> []) \<Longrightarrow> length xs \<le> length (concat (map f xs))"
proof (induction xs)
  case Nil
  show ?case by simp
next
  case (Cons x xs)
  have "f x \<noteq> []" by (rule Cons.prems) simp
  then have "1 \<le> length (f x)" by (cases "f x") simp_all
  moreover have "length xs \<le> length (concat (map f xs))"
    by (rule Cons.IH) (simp add: Cons.prems)
  ultimately show ?case by simp
qed

lemma length_elem_le_concat: "x \<in> set xs \<Longrightarrow> length (f x) \<le> length (concat (map f xs))"
  by (induction xs) auto

lemma Read_Marshal_buf:
  "bulkOrArray v \<Longrightarrow> int (length (Marshal v)) < 2 ^ 63 \<Longrightarrow>
   Read (RESP (Marshal v @ rest) s) = (Inr v, RESP rest s)"
proof (induction v arbitrary: rest)
  case (Value t st n b arr)
  from Value.prems(1) have st: "st = []" and n: "n = 0" by simp_all
  from Value.prems(1) consider
      (bulk) "t = ''bulk''" "arr = []"
    | (array) "t = ''array''" "b = []" "list_all bulkOrArray arr"
    by auto
  then show ?case
  proof cases
    case bulk
    have m: "Marshal (Value t st n b arr) = BULK # Itoa (int (length b)) @ CRLF @ b @ CRLF"
      using bulk by (simp add: marshalBulk_def)
    have len: "int (length b) < 2 ^ 63" using Value.prems(2) unfolding m by simp
    have "Read (RESP ((BULK # Itoa (int (length b)) @ CRLF @ b @ CRLF) @ rest) s)
        = readBulk (RESP (Itoa (int (length b)) @ CRLF @ b @ CRLF @ rest) s)"
      by (subst Read.simps) (simp add: ReadByte_buf BULK_def ARRAY_def)
    then show ?thesis
      unfolding m using readBulk_buf [OF len] bulk st n by simp
  next
    case array
    let ?body = "concat (map Marshal arr)"
    have m: "Marshal (Value t st n b arr) = ARRAY # Itoa (int (length arr)) @ CRLF @ ?body"
      using array by simp
    have tot: "int (length (Itoa (int (length arr)) @ CRLF @ ?body)) < 2 ^ 63"
      using Value.prems(2) unfolding m by simp
    have elems: "bulkOrArray x" if "x \<in> set arr" for x
      using array(3) that by (simp add: list_all_iff)
    have "length arr \<le> length ?body"
      by (rule length_le_concat) (simp add: elems bulkOrArray_Marshal_nonempty)
    with tot have len: "int (length arr) < 2 ^ 63" by simp
    have each: "Read (RESP (Marshal x @ rest') s) = (Inr x, RESP rest' s)"
      if "x \<in> set arr" for x rest'
    proof (rule Value.IH [OF that elems [OF that]])
      have "length (Marshal x) \<le> length ?body" by (rule length_elem_le_concat [OF that])
      with tot show "int (length (Marshal x)) < 2 ^ 63" by simp
    qed
    have 1: "readInteger (RESP (Itoa (int (length arr)) @ CRLF @ ?body @ rest) s)
        = (Inr (int (length arr), length (Itoa (int (length arr))) + 2), RESP (?body @ rest) s)"
      by (rule readInteger_Itoa) (use len in simp_all)
    have 2: "readArray_loop 0 (int (length arr)) [] (RESP (?body @ rest) s)
        = (Inr (Value ''array'' [] 0 [] ([] @ arr)), RESP rest s)"
      by (rule readArray_loop_buf) (simp_all add: each)
    have "Read (RESP ((ARRAY # Itoa (int (length arr)) @ CRLF @ ?body) @ rest) s)
        = readArray (RESP (Itoa (int (length arr)) @ CRLF @ ?body @ rest) s)"
      by (subst Read.simps) (simp add: ReadByte_buf)
    also have "\<dots> = (Inr (Value ''array'' [] 0 [] arr), RESP rest s)"
      by (subst readArray.simps) (simp add: 1 2)
    finally show ?thesis
      unfolding m using array st n by simp
  qed
qed

lemma ReadByte_fresh: "ReadByte (RESP [] bs) = ReadByte (RESP (take defaultBufSize bs) (drop defaultBufSize bs))"
  by (cases "take defaultBufSize bs") (auto simp: ReadByte_def fill_def Let_def)

lemma Read_fresh: "Read (NewRESP bs) = Read (RESP (take defaultBufSize bs) (drop defaultBufSize bs))"
  by (subst (1 2) Read.simps) (simp add: NewRESP_def ReadByte_fresh)

lemma readLine_loop_fresh:
  "readLine_loop line n (RESP [] bs)
     = readLine_loop line n (RESP (take defaultBufSize bs) (drop defaultBufSize bs))"
  by (subst (1 2) readLine_loop.simps) (simp add: ReadByte_fresh)

lemma bufRead_short:
  "p1 \<noteq> [] \<Longrightarrow> length p1 \<le> L \<Longrightarrow> bufRead L (RESP p1 bs) = (p1, RESP [] bs)"
  by (cases p1) (simp_all add: bufRead_def)

lemma readBulk_short:
  assumes "p1 \<noteq> []" and "length p1 \<le> L" and "int L < 2 ^ 63"
    and "CHR 0x0D \<notin> set p2" and "length (p2 @ CHR 0x0D # c # rest) \<le> 4096"
  shows "readBulk (RESP (Itoa (int L) @ CRLF @ p1) (p2 @ CHR 0x0D # c # rest))
     = (Inr (Value ''bulk'' [] 0 (p1 @ replicate (L - length p1) (CHR 0x00)) []), RESP rest [])"
proof -
  let ?src = "p2 @ CHR 0x0D # c # rest"
  have 1: "readInteger (RESP (Itoa (int L) @ CRLF @ p1) ?src)
      = (Inr (int L, length (Itoa (int L)) + 2), RESP p1 ?src)"
    by (rule readInteger_Itoa) (use assms(3) in simp_all)
  have 2: "bufRead L (RESP p1 ?src) = (p1, RESP [] ?src)"
    by (rule bufRead_short [OF assms(1,2)])
  have "readLine (RESP [] ?src) = readLine_loop [] 0 (RESP ?src [])"
    unfolding readLine_def using assms(5)
    by (subst readLine_loop_fresh) (simp add: defaultBufSize_def)
  also have "\<dots> = (Inr ([] @ p2, 0 + length p2 + 2), RESP rest [])"
    by (rule readLine_loop_buf [OF assms(4)]) simp
  finally have 3: "snd (readLine (RESP [] ?src)) = RESP rest []" by simp
  show ?thesis
    by (simp add: readBulk_def 1 2 3)
qed

lemma take_drop_exact:
  "length xs = n \<Longrightarrow> take n (xs @ ys) = xs \<and> drop n (xs @ ys) = ys"
  by auto

lemma Read_fresh_split:
  "length xs = defaultBufSize \<Longrightarrow> Read (NewRESP (xs @ ys)) = Read (RESP xs ys)"
  by (simp only: Read_fresh take_drop_exact)

lemma Itoa_5000: "Itoa 5000 = ''5000''"
  by (simp add: Itoa_def formatBits.simps digit_chars)



lemma ToUpper_SET: "ToUpper ''SET'' = ''SET''"
  by (simp add: ToUpper_def upperByte_def)

lemma Read_eof: "Read (RESP [] []) = (Inl EOF, RESP [] [])"
  by (subst Read.simps) (simp add: ReadByte_def fill_def)

lemma Read_array_marker: "Read (RESP (ARRAY # bs) s) = readArray (RESP bs s)"
  by (subst Read.simps) (simp add: ReadByte_buf)

lemma readArray_step:
  "readInteger r = (Inr (len, n), r') \<Longrightarrow> readArray r = readArray_loop 0 len [] r'"
  by (subst readArray.simps) simp

lemma readArray_loop_step:
  "i < len \<Longrightarrow> Read r = (Inr v, r') \<Longrightarrow>
   readArray_loop i len acc r = readArray_loop (i + 1) len (acc @ [v]) r'"
  by (subst readArray_loop.simps) simp

lemma readArray_loop_done:
  "\<not> i < len \<Longrightarrow> readArray_loop i len acc r = (Inr (Value ''array'' [] 0 [] acc), r)"
  by (subst readArray_loop.simps) simp

lemma AOF_Read_loop_step:
  "Read reader = (Inr v, reader') \<Longrightarrow> fn v st = Inr st' \<Longrightarrow>
   AOF_Read_loop fn reader st = AOF_Read_loop fn reader' st'"
  by (subst AOF_Read_loop.simps) simp

lemma AOF_Read_loop_eof:
  "Read reader = (Inl EOF, reader') \<Longrightarrow> AOF_Read_loop fn reader st = (None, st)"
  by (subst AOF_Read_loop.simps) simp

lemma Read_SET_5000:
  "Read (NewRESP (Marshal (Value ''array'' [] 0 []
      [Value ''bulk'' [] 0 ''SET'' [], Value ''bulk'' [] 0 ''k'' [],
       Value ''bulk'' [] 0 (replicate 5000 (CHR ''a'')) []])))
   = (Inr (Value ''array'' [] 0 []
      [Value ''bulk'' [] 0 ''SET'' [], Value ''bulk'' [] 0 ''k'' [],
       Value ''bulk'' [] 0 (replicate 4069 (CHR ''a'') @ replicate 931 (CHR 0x00)) []]),
      RESP [] [])"
proof -
  let ?v1 = "Value ''bulk'' [] 0 ''SET'' []"
  let ?v2 = "Value ''bulk'' [] 0 ''k'' []"
  let ?g = "Value ''bulk'' [] 0 (replicate 4069 (CHR ''a'') @ replicate 931 (CHR 0x00)) []"
  let ?m3 = "BULK # Itoa (int 5000) @ CRLF @ replicate 4069 (CHR ''a'')"
  let ?src = "replicate 931 (CHR ''a'') @ CRLF"
  let ?X = "ARRAY # Itoa (int 3) @ CRLF @ Marshal ?v1 @ Marshal ?v2 @ ?m3"
  have split: "replicate 5000 (CHR ''a'') = replicate 4069 (CHR ''a'') @ replicate 931 (CHR ''a'')"
    by (simp add: replicate_add [symmetric])
  have m: "Marshal (Value ''array'' [] 0 [] [?v1, ?v2, Value ''bulk'' [] 0 (replicate 5000 (CHR ''a'')) []])
      = ?X @ ?src"
    by (simp add: marshalBulk_def BULK_def) (simp add: split)
  have l: "length ?X = defaultBufSize"
    by (simp add: marshalBulk_def Itoa_5000 Itoa_3 Itoa_1 CRLF_def defaultBufSize_def)
  have r1: "Read (RESP (Marshal ?v1 @ Marshal ?v2 @ ?m3) ?src) = (Inr ?v1, RESP (Marshal ?v2 @ ?m3) ?src)"
    by (rule Read_Marshal_buf) (simp_all add: marshalBulk_def Itoa_3 CRLF_def)
  have r2: "Read (RESP (Marshal ?v2 @ ?m3) ?src) = (Inr ?v2, RESP ?m3 ?src)"
    by (rule Read_Marshal_buf) (simp_all add: marshalBulk_def Itoa_1 CRLF_def)
  have "Read (RESP ?m3 ?src) = readBulk (RESP (Itoa (int 5000) @ CRLF @ replicate 4069 (CHR ''a''))
        (replicate 931 (CHR ''a'') @ CHR 0x0D # CHR 0x0A # []))"
    by (subst Read.simps) (simp add: ReadByte_buf BULK_def ARRAY_def CRLF_def)
  also have "\<dots> = (Inr (Value ''bulk'' [] 0
        (replicate 4069 (CHR ''a'') @ replicate (5000 - length (replicate 4069 (CHR ''a''))) (CHR 0x00)) []),
        RESP [] [])"
    by (rule readBulk_short) simp_all
  finally have r3: "Read (RESP ?m3 ?src) = (Inr ?g, RESP [] [])" by simp
  have ri: "readInteger (RESP (Itoa (int 3) @ CRLF @ Marshal ?v1 @ Marshal ?v2 @ ?m3) ?src)
      = (Inr (int 3, length (Itoa (int 3)) + 2), RESP (Marshal ?v1 @ Marshal ?v2 @ ?m3) ?src)"
    by (rule readInteger_Itoa) simp_all
  have loop: "readArray_loop 0 (int 3) [] (RESP (Marshal ?v1 @ Marshal ?v2 @ ?m3) ?src)
      = (Inr (Value ''array'' [] 0 [] [?v1, ?v2, ?g]), RESP [] [])"
  proof -
    have "readArray_loop 0 (int 3) [] (RESP (Marshal ?v1 @ Marshal ?v2 @ ?m3) ?src)
        = readArray_loop (0 + 1) (int 3) ([] @ [?v1]) (RESP (Marshal ?v2 @ ?m3) ?src)"
      by (rule readArray_loop_step [OF _ r1]) simp
    also have "\<dots> = readArray_loop (0 + 1 + 1) (int 3) (([] @ [?v1]) @ [?v2]) (RESP ?m3 ?src)"
      by (rule readArray_loop_step [OF _ r2]) simp
    also have "\<dots> = readArray_loop (0 + 1 + 1 + 1) (int 3) ((([] @ [?v1]) @ [?v2]) @ [?g]) (RESP [] [])"
      by (rule readArray_loop_step [OF _ r3]) simp
    also have "\<dots> = (Inr (Value ''array'' [] 0 [] ((([] @ [?v1]) @ [?v2]) @ [?g])), RESP [] [])"
      by (rule readArray_loop_done) simp
    finally show ?thesis by simp
  qed
  have "Read (NewRESP (?X @ ?src)) = Read (RESP ?X ?src)"
    by (rule Read_fresh_split [OF l])
  also have "\<dots> = readArray (RESP (Itoa (int 3) @ CRLF @ Marshal ?v1 @ Marshal ?v2 @ ?m3) ?src)"
    by (rule Read_array_marker)
  also have "\<dots> = readArray_loop 0 (int 3) [] (RESP (Marshal ?v1 @ Marshal ?v2 @ ?m3) ?src)"
    by (rule readArray_step [OF ri])
  also note loop
  finally show ?thesis unfolding m .
qed



text \<open>
  C3. The claim: a first byte that is no supported marker makes the decoder fail, and
  never gives a default value. On the bytes \<open>+OK\<close> and a line end \<open>Read\<close> takes the
  \<open>+\<close>, reports no error and returns \<open>Value{}\<close>, leaving the rest of the line in the
  reader.
\<close>

theorem unknown_marker_returns_empty:
  "Read (NewRESP (''+OK'' @ CRLF)) = (Inr (Value [] [] 0 [] []), RESP (''OK'' @ CRLF) [])"
  by (simp add: Read.simps ReadByte_def NewRESP_def fill_def defaultBufSize_def CRLF_def
      ARRAY_def BULK_def zeroValue_def)

text \<open>
  C5. The claim: when the stream ends before the declared length of a bulk string has
  been read, the decoder fails and never returns a shortened payload. On the bytes
  \<open>$5\<close>, a line end and \<open>ab\<close> \<open>Read\<close> reports no error and returns a bulk string of
  five bytes: the two that were there and three zero bytes.
\<close>

theorem truncated_bulk_is_padded:
  "Read (NewRESP (''$5'' @ CRLF @ ''ab''))
     = (Inr (Value ''bulk'' [] 0 (''ab'' @ replicate 3 (CHR 0x00)) []), RESP [] [])"
  by (simp add: Read.simps readLine_loop.simps ReadByte_def NewRESP_def fill_def
      defaultBufSize_def readBulk_def readInteger_def readLine_def bufRead_def ParseInt_def
      isDigit_def parseDigits_def digitVal_def Let_def ARRAY_def BULK_def CRLF_def)




section \<open>The replay\<close>

text \<open>
  While the whole log fits the buffer of the reader, the replay reads back every request
  that \<open>handleClient\<close> has appended and runs the same handler on the same arguments:
  the state after the replay is the state after the execution.
\<close>

lemma Handlers_mutating:
  "c \<in> {''SET'', ''DEL'', ''HSET'', ''INCR''} \<Longrightarrow> \<exists>h. Handlers ord c = Some h"
  by (auto simp: Handlers_lookup)

lemma handleValue_mutating:
  assumes "mutatingRequest v"
  shows "\<exists>st'. replayFn ord v st = Inr st'
           \<and> snd (handleValue ord v (st, aof)) = (st', aof @ Marshal v)"
proof -
  from assms obtain x args where arr: "array v = x # args"
    by (cases "array v") (auto simp: mutatingRequest_def)
  from assms arr have c: "ToUpper (bulk x) \<in> {''SET'', ''DEL'', ''HSET'', ''INCR''}"
    by (simp add: mutatingRequest_def)
  then obtain h where h: "Handlers ord (ToUpper (bulk x)) = Some h"
    using Handlers_mutating by blast
  from assms have t: "typ' v = ''array''" by (simp add: mutatingRequest_def)
  have 1: "replayFn ord v st = Inr (snd (h args st))"
    by (simp add: replayFn_def arr h)
  have 2: "snd (handleValue ord v (st, aof)) = (snd (h args st), aof @ Marshal v)"
    using c by (auto simp: handleValue_def t arr h AOF_Write_def Let_def split: prod.splits)
  show ?thesis using 1 2 by blast
qed

lemma AOF_Read_loop_fresh:
  "length bs \<le> defaultBufSize \<Longrightarrow>
   AOF_Read_loop fn (NewRESP bs) st = AOF_Read_loop fn (RESP bs []) st"
  by (subst (1 2) AOF_Read_loop.simps) (simp add: Read_fresh)

lemma replay_loop_within_buffer:
  assumes "list_all mutatingRequest reqs"
    and "int (length (concat (map Marshal reqs))) < 2 ^ 63"
  shows "AOF_Read_loop (replayFn ord) (RESP (concat (map Marshal reqs)) []) st
           = (None, fst (handleValues ord reqs (st, aof)))
       \<and> snd (handleValues ord reqs (st, aof)) = aof @ concat (map Marshal reqs)"
  using assms
proof (induction reqs arbitrary: st aof)
  case Nil
  show ?case by (simp add: AOF_Read_loop_eof [OF Read_eof])
next
  case (Cons v reqs)
  from Cons.prems(1) have mv: "mutatingRequest v" and rest: "list_all mutatingRequest reqs"
    by simp_all
  obtain st' where fn: "replayFn ord v st = Inr st'"
    and hv: "snd (handleValue ord v (st, aof)) = (st', aof @ Marshal v)"
    using handleValue_mutating [OF mv] by blast
  have lv: "int (length (Marshal v)) < 2 ^ 63" and lr: "int (length (concat (map Marshal reqs))) < 2 ^ 63"
    using Cons.prems(2) by simp_all
  have rd: "Read (RESP (Marshal v @ concat (map Marshal reqs)) [])
      = (Inr v, RESP (concat (map Marshal reqs)) [])"
    by (rule Read_Marshal_buf [OF _ lv]) (use mv in \<open>simp add: mutatingRequest_def\<close>)
  have "AOF_Read_loop (replayFn ord) (RESP (concat (map Marshal (v # reqs))) []) st
      = AOF_Read_loop (replayFn ord) (RESP (concat (map Marshal reqs)) []) st'"
    using AOF_Read_loop_step [where fn = "replayFn ord", OF rd fn] by simp
  with Cons.IH [OF rest lr, of st' "aof @ Marshal v"] hv show ?case by simp
qed

lemma replay_within_buffer:
  assumes "list_all mutatingRequest reqs"
    and "length (concat (map Marshal reqs)) \<le> 4096"
  shows "replay ord (snd (handleValues ord reqs (emptyStore, [])))
           = (None, fst (handleValues ord reqs (emptyStore, [])))"
proof -
  have b: "int (length (concat (map Marshal reqs))) < 2 ^ 63" using assms(2) by simp
  have log: "snd (handleValues ord reqs (emptyStore, [])) = concat (map Marshal reqs)"
    using replay_loop_within_buffer [OF assms(1) b, of ord emptyStore "[]"] by simp
  show ?thesis
    unfolding log replay_def AOF_Read_def
    using replay_loop_within_buffer [OF assms(1) b, of ord emptyStore "[]"] assms(2)
    by (simp add: AOF_Read_loop_fresh defaultBufSize_def)
qed

lemma padded_value_differs:
  "replicate 4069 (CHR ''a'') @ replicate 931 (CHR 0x00) \<noteq> replicate 5000 (CHR ''a'')"
proof
  assume eq: "replicate 4069 (CHR ''a'') @ replicate 931 (CHR 0x00) = replicate 5000 (CHR ''a'')"
  have "(replicate 4069 (CHR ''a'') @ replicate 931 (CHR 0x00)) ! 4069
      = replicate 5000 (CHR ''a'') ! 4069"
    by (simp only: eq)
  moreover have "(replicate 4069 (CHR ''a'') @ replicate 931 (CHR 0x00)) ! 4069 = CHR 0x00"
    by (simp add: nth_append)
  moreover have "replicate 5000 (CHR ''a'') ! 4069 = CHR ''a''"
    by (rule nth_replicate) simp
  ultimately show False by simp
qed

lemma longSetRequest_mutating: "mutatingRequest longSetRequest"
  by (simp add: mutatingRequest_def longSetRequest_def ToUpper_SET)

text \<open>
  C1. The claim: replaying the captured log of a sequence of mutating requests against
  empty key spaces gives the state that executing the sequence gives. For the one
  request \<open>SET k v\<close> with a value \<open>v\<close> of 5000 bytes, \<open>handleClient\<close> stores \<open>v\<close> and
  appends the request to the file. The replay reads the file through a buffer of 4096
  bytes that holds the first 4069 bytes of \<open>v\<close> when \<open>readBulk\<close> asks for 5000: it
  takes those, leaves zero bytes in the other 931 places, and stores that string. The
  replay ends without an error, in a state that is not the one of the execution.
\<close>

theorem replay_loses_long_value:
  "handleValues ord [longSetRequest] (emptyStore, [])
     = (emptyStore\<lparr>SETs := [''k'' \<mapsto> replicate 5000 (CHR ''a'')]\<rparr>, Marshal longSetRequest)
   \<and> replay ord (snd (handleValues ord [longSetRequest] (emptyStore, [])))
     = (None, emptyStore\<lparr>SETs := [''k'' \<mapsto> replicate 4069 (CHR ''a'') @ replicate 931 (CHR 0x00)]\<rparr>)
   \<and> snd (replay ord (snd (handleValues ord [longSetRequest] (emptyStore, []))))
     \<noteq> fst (handleValues ord [longSetRequest] (emptyStore, []))"
proof -
  let ?g = "Value ''array'' [] 0 []
      [Value ''bulk'' [] 0 ''SET'' [], Value ''bulk'' [] 0 ''k'' [],
       Value ''bulk'' [] 0 (replicate 4069 (CHR ''a'') @ replicate 931 (CHR 0x00)) []]"
  let ?direct = "emptyStore\<lparr>SETs := [''k'' \<mapsto> replicate 5000 (CHR ''a'')]\<rparr>"
  let ?replayed = "emptyStore\<lparr>SETs := [''k'' \<mapsto> replicate 4069 (CHR ''a'') @ replicate 931 (CHR 0x00)]\<rparr>"
  have 1: "handleValues ord [longSetRequest] (emptyStore, []) = (?direct, Marshal longSetRequest)"
    by (simp add: handleValue_def longSetRequest_def ToUpper_SET Handlers_lookup handleSet_def
        AOF_Write_def emptyStore_def del: Marshal.simps)
  have fn: "replayFn ord ?g emptyStore = Inr ?replayed"
    by (simp add: replayFn_def ToUpper_SET Handlers_lookup handleSet_def emptyStore_def)
  have rd: "Read (NewRESP (Marshal longSetRequest)) = (Inr ?g, RESP [] [])"
    unfolding longSetRequest_def by (rule Read_SET_5000)
  have 2: "replay ord (Marshal longSetRequest) = (None, ?replayed)"
    unfolding replay_def AOF_Read_def
    by (simp only: AOF_Read_loop_step [where fn = "replayFn ord", OF rd fn]
        AOF_Read_loop_eof [where fn = "replayFn ord", OF Read_eof])
  have "SETs ?replayed ''k'' \<noteq> SETs ?direct ''k''"
    using padded_value_differs by simp
  then have 3: "?replayed \<noteq> ?direct" by metis
  show ?thesis
    unfolding 1 snd_conv fst_conv 2 using 3 by simp
qed

section \<open>The encoder\<close>

text \<open>
  C4. The claim: a value whose kind has no serialization makes the encoder fail, and in
  particular an Integer value is never encoded as no bytes at all. \<open>Marshal\<close> has no case
  for the kind \<open>integer\<close>, which \<open>DEL\<close>, \<open>EXISTS\<close> and \<open>INCR\<close> return: it encodes
  the Integer 1 as the empty byte sequence.
\<close>

theorem marshal_integer_empty: "Marshal (Value ''integer'' [] 1 [] []) = []"
  by simp

end
